theory Spec2Isabelle
  imports Complex_Main "HOL-Library.Word"
begin

unbundle bit_operations_syntax

section \<open>The image converter \<open>imconv.py\<close>: data model\<close>

text \<open>
  The converter reads a decoded image, reduces blocks of source pixels to one bit each and
  packs the bits into the page layout of an SSD1306 display. Python integers are unbounded
  and are modelled by \<open>int\<close>; sizes and loop counters that the code keeps non-negative are
  \<open>nat\<close>. Every exception and every \<open>exit(...)\<close> of the source is a value \<open>Inl e\<close> of the
  result type \<open>error + 'a\<close>.

  The header text written by \<open>save_to_h\<close>, the diagnostic \<open>comments\<close> string and the
  \<open>print\<close> calls only format values computed before them; they are not modelled. The
  model of \<open>main\<close> ends with the arguments it hands to \<open>save_to_h\<close>.
\<close>

datatype error =
    ZeroDivisionError
  | IndexError
  | TypeError
  | ValueError
  | ExitScaleFactor
  | ExitUnsupportedFormat string

text \<open>
  A pixel as the decoder's accessor returns it: one integer for a single-band image, a
  tuple of integers for a multi-band one. Lists built by the converter itself
  (\<open>[r, g, b]\<close>) are subscripted the same way and share the constructor \<open>Multi\<close>.
\<close>

datatype sample = Single int | Multi "int list"

text \<open>
  The decoded image: the attributes of the library object that \<open>main\<close> reads
  (\<open>width\<close>, \<open>height\<close>, \<open>mode\<close>, \<open>has_transparency_data\<close>) and the pixel store behind
  \<open>im.load()\<close>.
\<close>

record image =
  width :: nat
  height :: nat
  mode :: string
  has_transparency_data :: bool
  pixels :: "nat \<Rightarrow> nat \<Rightarrow> sample"

text \<open>Sequencing of fallible steps: the first exception ends the computation.\<close>

definition and_then :: "error + 'a \<Rightarrow> ('a \<Rightarrow> error + 'b) \<Rightarrow> error + 'b" where
  "and_then m f = (case m of Inl e \<Rightarrow> Inl e | Inr a \<Rightarrow> f a)"

text \<open>
  A Python \<open>for\<close> loop over a list of indices, threading the variables the body assigns
  as a state; an exception in the body leaves the loop.
\<close>

fun for_each :: "('i \<Rightarrow> 's \<Rightarrow> error + 's) \<Rightarrow> 'i list \<Rightarrow> 's \<Rightarrow> error + 's" where
  "for_each body [] s = Inr s"
| "for_each body (i # is) s =
     (case body i s of Inl e \<Rightarrow> Inl e | Inr s' \<Rightarrow> for_each body is s')"

text \<open>
  \<open>px[x, y]\<close> on the accessor returned by \<open>im.load()\<close>: the library raises \<open>IndexError\<close>
  outside the image. The converter only passes non-negative coordinates.
\<close>

definition px :: "image \<Rightarrow> nat \<Rightarrow> nat \<Rightarrow> error + sample" where
  "px im x y =
     (if x < width im \<and> y < height im then Inr (pixels im x y) else Inl IndexError)"

text \<open>\<open>c[i]\<close> for a non-negative constant \<open>i\<close>: an integer is not subscriptable.\<close>

definition subscript :: "sample \<Rightarrow> nat \<Rightarrow> error + int" where
  "subscript c i =
     (case c of
        Single v \<Rightarrow> Inl TypeError
      | Multi cs \<Rightarrow> if i < length cs then Inr (cs ! i) else Inl IndexError)"

text \<open>A pixel used as an operand of integer arithmetic: a tuple plus an integer is a \<open>TypeError\<close>.\<close>

definition as_int :: "sample \<Rightarrow> error + int" where
  "as_int c = (case c of Single v \<Rightarrow> Inr v | Multi cs \<Rightarrow> Inl TypeError)"

text \<open>Python's \<open>a // b\<close>: floor division, as \<open>div\<close> on \<open>int\<close>, raising on a zero divisor.\<close>

definition floordiv :: "int \<Rightarrow> int \<Rightarrow> error + int" where
  "floordiv a b = (if b = 0 then Inl ZeroDivisionError else Inr (a div b))"

text \<open>\<open>xs[i] = v\<close> and \<open>xs[i]\<close> on a list, for a non-negative index.\<close>

definition set_item :: "'a list \<Rightarrow> nat \<Rightarrow> 'a \<Rightarrow> error + 'a list" where
  "set_item xs i v = (if i < length xs then Inr (xs[i := v]) else Inl IndexError)"

definition get_item :: "'a list \<Rightarrow> nat \<Rightarrow> error + 'a" where
  "get_item xs i = (if i < length xs then Inr (xs ! i) else Inl IndexError)"

text \<open>\<open>range(0, stop, step)\<close> for a positive step; a zero step raises \<open>ValueError\<close>.\<close>

definition range_step :: "nat \<Rightarrow> nat \<Rightarrow> error + nat list" where
  "range_step stop step =
     (if step = 0 then Inl ValueError
      else Inr (map (\<lambda>k. k * step) [0..<(stop + step - 1) div step]))"

section \<open>Colour helpers (lines 6 to 66)\<close>

definition scale_crop :: "int \<Rightarrow> int \<Rightarrow> error + int" where
  "scale_crop v scale =
     and_then (floordiv (v + scale - 1) scale) (\<lambda>v.
       if v < 0 then Inr 0
       else if v > 255 then Inr 255
       else Inr v)"

text \<open>The default value of \<open>bg\<close> in \<open>rgba2rgb\<close>.\<close>

definition bg_default :: sample where
  "bg_default = Multi [255, 255, 255]"

definition rgba2rgb :: "sample \<Rightarrow> sample \<Rightarrow> error + sample" where
  "rgba2rgb c bg =
     and_then (subscript c 0) (\<lambda>r.
     and_then (subscript c 1) (\<lambda>g.
     and_then (subscript c 2) (\<lambda>b.
     and_then (subscript c 3) (\<lambda>alpha.
     and_then (subscript bg 0) (\<lambda>bg_r.
     and_then (subscript bg 1) (\<lambda>bg_g.
     and_then (subscript bg 2) (\<lambda>bg_b.
     and_then (scale_crop ((255 - alpha) * bg_r + alpha * r) 256) (\<lambda>o_r.
     and_then (scale_crop ((255 - alpha) * bg_g + alpha * g) 256) (\<lambda>o_g.
     and_then (scale_crop ((255 - alpha) * bg_b + alpha * b) 256) (\<lambda>o_b.
       Inr (Multi [o_r, o_g, o_b])))))))))))"

definition color_invert :: "sample \<Rightarrow> error + sample" where
  "color_invert c =
     and_then (subscript c 0) (\<lambda>c0.
     and_then (subscript c 1) (\<lambda>c1.
     and_then (subscript c 2) (\<lambda>c2.
       Inr (Multi [255 - c0, 255 - c1, 255 - c2]))))"

definition get_y :: "sample \<Rightarrow> error + int" where
  "get_y rgb =
     and_then (subscript rgb 0) (\<lambda>r.
     and_then (subscript rgb 1) (\<lambda>g.
     and_then (subscript rgb 2) (\<lambda>b.
       scale_crop (76 * r + 150 * g + 29 * b) 256)))"

section \<open>Colour model selection (lines 278 to 290)\<close>

text \<open>\<open>str.split(sep)\<close> for a one-character separator: always at least one field.\<close>

fun split_on :: "char \<Rightarrow> string \<Rightarrow> string list" where
  "split_on sep [] = [[]]"
| "split_on sep (c # cs) =
     (if c = sep then [] # split_on sep cs
      else (case split_on sep cs of
              [] \<Rightarrow> [[c]]
            | f # fs \<Rightarrow> (c # f) # fs))"

text \<open>
  \<open>int(s)\<close> on a string. A \<open>char\<close> stands for a code point below 256, which covers the
  mode strings of the decoder (they are ASCII); code points from 256 on are outside the
  string type. Blanks around the number are dropped: the ASCII blanks 9 to 13 and 32, and
  the two further blanks below 256, \<open>0x85\<close> and \<open>0xA0\<close>. Then one sign is allowed, then
  decimal digits (below 256 only \<open>0\<close> to \<open>9\<close>), single underscores between digits being
  skipped. Anything else raises \<open>ValueError\<close>.
\<close>

definition is_space :: "char \<Rightarrow> bool" where
  "is_space c =
     (c \<in> set [CHR 0x09, CHR 0x0A, CHR 0x0B, CHR 0x0C, CHR 0x0D, CHR 0x20, CHR 0x85, CHR 0xA0])"

definition is_digit :: "char \<Rightarrow> bool" where
  "is_digit c = (c \<in> set ''0123456789'')"

definition digit_val :: "char \<Rightarrow> int" where
  "digit_val c = int (of_char c) - 48"

fun parse_digits :: "bool \<Rightarrow> int \<Rightarrow> string \<Rightarrow> error + int" where
  "parse_digits prev acc [] = (if prev then Inr acc else Inl ValueError)"
| "parse_digits prev acc (c # cs) =
     (if is_digit c then parse_digits True (10 * acc + digit_val c) cs
      else if c = CHR ''_'' \<and> prev then parse_digits False acc cs
      else Inl ValueError)"

definition strip :: "string \<Rightarrow> string" where
  "strip s = rev (dropWhile is_space (rev (dropWhile is_space s)))"

definition py_int :: "string \<Rightarrow> error + int" where
  "py_int s =
     (case strip s of
        [] \<Rightarrow> Inl ValueError
      | c # cs \<Rightarrow>
          if c = CHR ''-'' then and_then (parse_digits False 0 cs) (\<lambda>n. Inr (- n))
          else if c = CHR ''+'' then parse_digits False 0 cs
          else parse_digits False 0 (c # cs))"

text \<open>\<open>a << n\<close>: a negative shift count raises \<open>ValueError\<close>.\<close>

definition lshift :: "int \<Rightarrow> int \<Rightarrow> error + int" where
  "lshift a n = (if n < 0 then Inl ValueError else Inr (push_bit (nat n) a))"

text \<open>The three variables the selection leaves behind for the pixel loop.\<close>

record mode_sel =
  has_alpha :: bool
  rgb_mode :: bool
  i_mode :: int

definition select_mode :: "image \<Rightarrow> error + mode_sel" where
  "select_mode im =
     (let rgb_mode = False;
          i_mode = 65536;
          has_alpha = has_transparency_data im
      in if \<not> has_alpha then
           if mode im = ''RGBA'' then
             Inr \<lparr>has_alpha = True, rgb_mode = rgb_mode, i_mode = i_mode\<rparr>
           else if mode im = ''RGB'' then
             Inr \<lparr>has_alpha = has_alpha, rgb_mode = True, i_mode = i_mode\<rparr>
           else
             (let s = split_on CHR '';'' (mode im)
              in and_then (get_item s 0) (\<lambda>s0.
                 if s0 \<noteq> ''I'' then Inl (ExitUnsupportedFormat (mode im))
                 else
                   and_then (get_item s 1) (\<lambda>s1.
                   and_then (py_int s1) (\<lambda>bits.
                   and_then (lshift 1 bits) (\<lambda>i_mode.
                     Inr \<lparr>has_alpha = has_alpha, rgb_mode = rgb_mode, i_mode = i_mode\<rparr>)))))
         else Inr \<lparr>has_alpha = has_alpha, rgb_mode = rgb_mode, i_mode = i_mode\<rparr>)"

section \<open>Block downscaler (lines 307 to 338)\<close>

text \<open>
  The body of the two innermost loops (lines 317 to 325). First the pixel is normalised to
  an RGB triple, by the branch the colour model selects (lines 317 to 323).
\<close>

definition normalize :: "image \<Rightarrow> mode_sel \<Rightarrow> nat \<Rightarrow> nat \<Rightarrow> error + sample" where
  "normalize im sel x y =
     (if has_alpha sel then
        and_then (px im x y) (\<lambda>c. rgba2rgb c bg_default)
      else if rgb_mode sel then
        px im x y
      else
        and_then (px im x y) (\<lambda>p.
        and_then (as_int p) (\<lambda>v.
        and_then (floordiv (i_mode sel) 256) (\<lambda>scale.
        and_then (scale_crop v scale) (\<lambda>pxx.
          Inr (Multi [pxx, pxx, pxx]))))))"

text \<open>Then the triple is inverted and its luma is the value stored in \<open>vpx\<close> (line 325).\<close>

definition pixel_luma :: "image \<Rightarrow> mode_sel \<Rightarrow> nat \<Rightarrow> nat \<Rightarrow> error + int" where
  "pixel_luma im sel x y =
     and_then (normalize im sel x y) (\<lambda>rgb. and_then (color_invert rgb) get_y)"

text \<open>The loops over \<open>yy\<close> and \<open>xx\<close> (lines 311 to 327); the state is \<open>(vpx, idx)\<close>.\<close>

definition gather :: "image \<Rightarrow> mode_sel \<Rightarrow> nat \<Rightarrow> nat \<Rightarrow> nat \<Rightarrow> nat \<Rightarrow> error + int list \<times> nat" where
  "gather im sel sx sy y x =
     for_each (\<lambda>yy.
       for_each (\<lambda>xx (vpx, idx).
         and_then (pixel_luma im sel (x + xx) (y + yy)) (\<lambda>v.
         and_then (set_item vpx idx v) (\<lambda>vpx.
           Inr (vpx, idx + 1))))
         [0..<sx])
       [0..<sy]
       (replicate (sx * sy) 0, 0)"

text \<open>One block (lines 311 to 332): the mean of its values against the threshold.\<close>

definition block :: "image \<Rightarrow> mode_sel \<Rightarrow> nat \<Rightarrow> nat \<Rightarrow> int \<Rightarrow> nat \<Rightarrow> nat \<Rightarrow> int list list \<Rightarrow> error + int list list" where
  "block im sel sx sy thr y x img =
     and_then (gather im sel sx sy y x) (\<lambda>(vpx, idx).
     and_then (floordiv (sum_list vpx) (int (sx * sy))) (\<lambda>r.
       if r > thr then
         and_then (get_item img (y div sy)) (\<lambda>row.
         and_then (set_item row (x div sx) 1) (\<lambda>row.
           set_item img (y div sy) row))
       else Inr img))"

definition downscale :: "image \<Rightarrow> mode_sel \<Rightarrow> nat \<Rightarrow> nat \<Rightarrow> int \<Rightarrow> error + int list list" where
  "downscale im sel sx sy thr =
     and_then (range_step (height im) sy) (\<lambda>ys.
       for_each (\<lambda>y img.
         and_then (range_step (width im) sx) (\<lambda>xs.
           for_each (block im sel sx sy thr y) xs img))
         ys
         (replicate (height im) (replicate (width im) 0)))"

section \<open>Bit packer (lines 343 to 365)\<close>

record pack_state =
  byte :: int
  byte_offset :: int
  result_array :: "int list"

text \<open>\<open>if x:\<close> on an integer.\<close>

definition truthy :: "int \<Rightarrow> bool" where
  "truthy v = (v \<noteq> 0)"

definition flush :: "pack_state \<Rightarrow> pack_state" where
  "flush s = \<lparr>byte = 0, byte_offset = 1, result_array = result_array s @ [byte s]\<rparr>"

text \<open>The body of the loop over \<open>y\<close> (lines 346 to 354); \<open>and\<close> does not evaluate its right operand
  when \<open>yc < hn\<close> is false.\<close>

definition pack_bit :: "int list list \<Rightarrow> nat \<Rightarrow> nat \<Rightarrow> nat \<Rightarrow> nat \<Rightarrow> pack_state \<Rightarrow> error + pack_state" where
  "pack_bit img hn n x y s =
     (let yc = n * 8 + y
      in and_then
           (if yc < hn then
              and_then (get_item img yc) (\<lambda>row.
              and_then (get_item row x) (\<lambda>v. Inr (truthy v)))
            else Inr False) (\<lambda>lit.
         let s = (if lit then s\<lparr>byte := byte s OR byte_offset s\<rparr> else s);
             s = s\<lparr>byte_offset := push_bit 1 (byte_offset s)\<rparr>
         in if byte_offset s \<ge> 256 then Inr (flush s) else Inr s))"

definition pack_column :: "int list list \<Rightarrow> nat \<Rightarrow> nat \<Rightarrow> nat \<Rightarrow> pack_state \<Rightarrow> error + pack_state" where
  "pack_column img hn n x s =
     and_then (for_each (pack_bit img hn n x) [0..<8] s) (\<lambda>s.
       if byte_offset s > 1 then Inr (flush s) else Inr s)"

definition pack :: "int list list \<Rightarrow> nat \<Rightarrow> nat \<Rightarrow> nat \<Rightarrow> pack_state \<Rightarrow> error + pack_state" where
  "pack img hn hn2 wn s =
     for_each (\<lambda>n. for_each (pack_column img hn n) [0..<wn]) [0..<hn2] s"

section \<open>The conversion (lines 245 to 367)\<close>

text \<open>What \<open>main\<close> passes to \<open>save_to_h\<close>: the packed bytes and the result dimensions.\<close>

record header_args =
  result :: "int list"
  w :: int
  h :: int

definition main :: "image \<Rightarrow> int \<Rightarrow> int \<Rightarrow> int \<Rightarrow> error + header_args" where
  "main im dest_w dest_h thr =
     and_then (floordiv (int (width im)) dest_w) (\<lambda>scale_factor_x.
     let scale_factor_x = (if scale_factor_x < 1 then 1 else scale_factor_x)
     in
     and_then (floordiv (int (height im)) dest_h) (\<lambda>scale_factor_y.
     let scale_factor_y = (if scale_factor_y < 1 then 1 else scale_factor_y)
     in
     and_then (floordiv (int (height im)) scale_factor_y) (\<lambda>hn.
     and_then (floordiv (hn + 8 - 1) 8) (\<lambda>hn2.
     and_then (floordiv (int (width im)) scale_factor_x) (\<lambda>wn.
       if hn \<noteq> dest_h \<or> wn \<noteq> dest_w then Inl ExitScaleFactor
       else
         and_then (select_mode im) (\<lambda>sel.
         let st = \<lparr>byte = 0, byte_offset = 1, result_array = []\<rparr>
         in
         and_then (downscale im sel (nat scale_factor_x) (nat scale_factor_y) thr) (\<lambda>img.
         and_then (pack img (nat hn) (nat hn2) (nat wn) st) (\<lambda>st.
         let st = (if byte_offset st > 1 then flush st else st)
         in Inr \<lparr>result = result_array st, w = wn, h = hn\<rparr>))))))))"

section \<open>The words of the specification\<close>

text \<open>Ceiling division and clamping, as the specification names them.\<close>

definition ceil_div :: "int \<Rightarrow> int \<Rightarrow> int" where
  "ceil_div a b = - ((- a) div b)"

definition clamp :: "int \<Rightarrow> int \<Rightarrow> int \<Rightarrow> int" where
  "clamp v lo hi = max lo (min hi v)"

text \<open>The integer mean of the block of \<open>sx\<close> by \<open>sy\<close> values whose corner is \<open>(x, y)\<close>.\<close>

definition block_mean :: "(nat \<Rightarrow> nat \<Rightarrow> int) \<Rightarrow> nat \<Rightarrow> nat \<Rightarrow> nat \<Rightarrow> nat \<Rightarrow> int" where
  "block_mean f sx sy x y = (\<Sum>yy < sy. \<Sum>xx < sx. f (x + xx) (y + yy)) div int (sx * sy)"

text \<open>An image of one colour, without transparency data.\<close>

definition solid :: "string \<Rightarrow> nat \<Rightarrow> nat \<Rightarrow> sample \<Rightarrow> image" where
  "solid m ww hh c =
     \<lparr>width = ww, height = hh, mode = m, has_transparency_data = False, pixels = (\<lambda>x y. c)\<rparr>"

text \<open>A 2 by 2 RGB image: a black column on the left, a white one on the right.\<close>

definition two_tone :: image where
  "two_tone = \<lparr>width = 2, height = 2, mode = ''RGB'', has_transparency_data = False,
      pixels = (\<lambda>x y. if x = 0 then Multi [0, 0, 0] else Multi [255, 255, 255])\<rparr>"

section \<open>Auxiliary notions of the proofs\<close>

text \<open>The weight of row \<open>y\<close> of page \<open>p\<close> in the byte of column \<open>x\<close>, and the sum of the first \<open>k\<close> weights.\<close>

definition lit_weight :: "int list list \<Rightarrow> nat \<Rightarrow> nat \<Rightarrow> nat \<Rightarrow> nat \<Rightarrow> int" where
  "lit_weight img hn p x y = (if p * 8 + y < hn \<and> img ! (p * 8 + y) ! x \<noteq> 0 then 2 ^ y else 0)"

definition page_sum :: "int list list \<Rightarrow> nat \<Rightarrow> nat \<Rightarrow> nat \<Rightarrow> nat \<Rightarrow> int" where
  "page_sum img hn p x k = (\<Sum>y<k. lit_weight img hn p x y)"

text \<open>The bytes of the first \<open>k\<close> pages, in the order the packer appends them.\<close>

definition page_bytes :: "int list list \<Rightarrow> nat \<Rightarrow> nat \<Rightarrow> nat \<Rightarrow> int list" where
  "page_bytes img hn wn k =
     concat (map (\<lambda>p. map (\<lambda>x. page_sum img hn p x 8) [0..<wn]) [0..<k])"

text \<open>The values of the first \<open>k\<close> rows of a block, in the order \<open>vpx\<close> receives them.\<close>

definition block_values :: "(nat \<Rightarrow> nat \<Rightarrow> int) \<Rightarrow> nat \<Rightarrow> nat \<Rightarrow> nat \<Rightarrow> nat \<Rightarrow> int list" where
  "block_values f sx k x y =
     concat (map (\<lambda>yy. map (\<lambda>xx. f (x + xx) (y + yy)) [0..<sx]) [0..<k])"

text \<open>The bit of destination pixel \<open>(j, i)\<close>, and a grid of given size and contents.\<close>

definition cell :: "(nat \<Rightarrow> nat \<Rightarrow> int) \<Rightarrow> nat \<Rightarrow> nat \<Rightarrow> int \<Rightarrow> nat \<Rightarrow> nat \<Rightarrow> int" where
  "cell f sx sy thr i j = (if thr < block_mean f sx sy (j * sx) (i * sy) then 1 else 0)"

definition grid_is :: "nat \<Rightarrow> nat \<Rightarrow> int list list \<Rightarrow> (nat \<Rightarrow> nat \<Rightarrow> int) \<Rightarrow> bool" where
  "grid_is hh ww img g =
     (length img = hh \<and> (\<forall>i<hh. length (img ! i) = ww \<and> (\<forall>j<ww. img ! i ! j = g i j)))"

section \<open>Basic facts\<close>


lemma and_then_Inr [simp]: "and_then (Inr a) f = f a"
  by (simp add: and_then_def)

lemma and_then_Inl [simp]: "and_then (Inl e) f = Inl e"
  by (simp add: and_then_def)

lemma ceil_div_is_ceiling: "ceil_div a b = \<lceil>real_of_int a / real_of_int b\<rceil>"
  by (simp add: ceil_div_def ceiling_divide_eq_div)

lemma ceil_div_round_up:
  assumes "0 < b"
  shows "(a + b - 1) div b = ceil_div a b"
proof -
  define q where "q = (- a) div b"
  define r where "r = (- a) mod b"
  have r: "0 \<le> r" "r < b"
    using assms by (simp_all add: r_def)
  have "- a = b * q + r"
    by (simp add: q_def r_def)
  then have "a + b - 1 = b * (- q) + (b - 1 - r)"
    by (simp add: algebra_simps)
  moreover have "0 \<le> b - 1 - r" "b - 1 - r < b"
    using r by simp_all
  ultimately have "(a + b - 1) div b = - q"
    by (intro int_div_pos_eq)
  then show ?thesis
    by (simp add: ceil_div_def q_def)
qed

lemma scale_crop_eq:
  assumes "0 < scale"
  shows "scale_crop v scale = Inr (clamp (ceil_div v scale) 0 255)"
  using assms
  by (auto simp: scale_crop_def floordiv_def ceil_div_round_up clamp_def)

lemma rgba2rgb_eq:
  "rgba2rgb (Multi [r, g, b, a]) bg_default =
     Inr (Multi [clamp (ceil_div ((255 - a) * 255 + a * r) 256) 0 255,
                 clamp (ceil_div ((255 - a) * 255 + a * g) 256) 0 255,
                 clamp (ceil_div ((255 - a) * 255 + a * b) 256) 0 255])"
  by (simp add: rgba2rgb_def bg_default_def subscript_def scale_crop_eq)

lemma invert_then_luma: "and_then (color_invert (Multi [r, g, b])) get_y =
      Inr (clamp (ceil_div (76 * (255 - r) + 150 * (255 - g) + 29 * (255 - b)) 256) 0 255)"
  by (simp add: color_invert_def get_y_def subscript_def scale_crop_eq)


lemma for_each_fails:
  assumes "x \<in> set xs" and "\<And>s. \<exists>e. body x s = Inl e"
  shows "\<exists>e. for_each body xs s = Inl e"
  using assms(1)
proof (induction xs arbitrary: s)
  case Nil
  then show ?case by simp
next
  case (Cons a xs)
  show ?case
  proof (cases "body a s")
    case (Inl e)
    then show ?thesis by simp
  next
    case (Inr t)
    show ?thesis
    proof (cases "a = x")
      case True
      with assms(2)[of s] Inr show ?thesis by auto
    next
      case False
      with Cons.prems have "x \<in> set xs" by simp
      from Cons.IH [OF this, of t] Inr show ?thesis by simp
    qed
  qed
qed

lemma for_each_preserves:
  assumes "for_each body xs s = Inr t" and "P s"
    and "\<And>x u v. x \<in> set xs \<Longrightarrow> P u \<Longrightarrow> body x u = Inr v \<Longrightarrow> P v"
  shows "P t"
  using assms
proof (induction xs arbitrary: s)
  case Nil
  then show ?case by simp
next
  case (Cons a xs)
  from Cons.prems(1) obtain u where u: "body a s = Inr u" "for_each body xs u = Inr t"
    by (auto split: sum.splits)
  from Cons.prems(3)[of a s u] Cons.prems(2) u(1) have "P u" by simp
  with u(2) show ?case
  proof (rule Cons.IH)
    fix x u' v
    assume "x \<in> set xs" "P u'" "body x u' = Inr v"
    with Cons.prems(3)[of x u' v] show "P v" by simp
  qed
qed


section \<open>The packer and the downscaler\<close>




lemma or_pow2:
  fixes b :: int
  assumes "0 \<le> b" and "b < 2 ^ k"
  shows "b OR 2 ^ k = b + 2 ^ k"
proof -
  have "take_bit k b = b"
    using assms by (simp add: take_bit_int_eq_self)
  then have "\<not> bit b k"
    by (metis bit_take_bit_iff less_irrefl)
  then have "b AND 2 ^ k = 0"
    by (simp add: and_exp_eq_0_iff_not_bit)
  then show ?thesis
    by (simp add: disjunctive_add_eq_or)
qed

lemma for_each_invariant:
  assumes "P 0 s"
    and "\<And>k t. k < length xs \<Longrightarrow> P k t \<Longrightarrow> \<exists>t'. body (xs ! k) t = Inr t' \<and> P (Suc k) t'"
  shows "\<exists>t. for_each body xs s = Inr t \<and> P (length xs) t"
  using assms
proof (induction xs arbitrary: P s)
  case Nil
  then show ?case by simp
next
  case (Cons x xs)
  from Cons.prems(2)[of 0 s] Cons.prems(1)
  obtain t where t: "body x s = Inr t" "P (Suc 0) t" by auto
  have "\<exists>u. for_each body xs t = Inr u \<and> P (Suc (length xs)) u"
  proof (rule Cons.IH [where P = "\<lambda>k. P (Suc k)"])
    show "P (Suc 0) t" by fact
  next
    fix k u
    assume "k < length xs" "P (Suc k) u"
    with Cons.prems(2)[of "Suc k" u]
    show "\<exists>t'. body (xs ! k) u = Inr t' \<and> P (Suc (Suc k)) t'" by simp
  qed
  with t show ?case by simp
qed

lemma page_sum_bounds: "0 \<le> page_sum img hn p x k \<and> page_sum img hn p x k < 2 ^ k"
  by (induction k) (auto simp: page_sum_def lit_weight_def)

lemma page_sum_Suc:
  "page_sum img hn p x (Suc k) = page_sum img hn p x k + lit_weight img hn p x k"
  by (simp add: page_sum_def)

lemma pack_bit_step:
  assumes "hn \<le> length img" and "\<forall>r<hn. x < length (img ! r)" and "k < 8"
    and "byte t = page_sum img hn p x k" and "byte_offset t = 2 ^ k"
  shows "pack_bit img hn p x k t =
      Inr (if k < 7 then t\<lparr>byte := page_sum img hn p x (Suc k), byte_offset := 2 ^ Suc k\<rparr>
           else \<lparr>byte = 0, byte_offset = 1, result_array = result_array t @ [page_sum img hn p x 8]\<rparr>)"
proof -
  have pw: "(256 \<le> (2::int) ^ Suc k) = (\<not> k < 7)"
  proof -
    have "(256::int) = 2 ^ 8" by simp
    then have "(256 \<le> (2::int) ^ Suc k) = ((2::int) ^ 8 \<le> 2 ^ Suc k)" by simp
    also have "\<dots> = (8 \<le> Suc k)" by (rule power_increasing_iff) simp
    finally show ?thesis by auto
  qed
  have k7: "\<not> k < 7 \<Longrightarrow> page_sum img hn p x 8 = page_sum img hn p x (Suc k)"
  proof -
    assume "\<not> k < 7"
    with assms(3) have "Suc k = 8" by arith
    then show ?thesis by simp
  qed
  have orr: "page_sum img hn p x k OR 2 ^ k = page_sum img hn p x k + 2 ^ k"
    using page_sum_bounds by (intro or_pow2) auto
  have lookup: "p * 8 + k < hn \<Longrightarrow>
      and_then (get_item img (p * 8 + k)) (\<lambda>row. and_then (get_item row x) (\<lambda>v. Inr (truthy v)))
        = Inr (img ! (p * 8 + k) ! x \<noteq> 0)"
    using assms(1,2) by (simp add: get_item_def truthy_def)
  show ?thesis
    using assms(4,5) pw k7 orr lookup
    by (simp add: pack_bit_def Let_def flush_def page_sum_Suc lit_weight_def)
qed


lemma pack_bits_column:
  assumes "hn \<le> length img" and "\<forall>r<hn. x < length (img ! r)"
    and "byte s = 0" and "byte_offset s = 1"
  shows "for_each (pack_bit img hn p x) [0..<8] s =
      Inr \<lparr>byte = 0, byte_offset = 1, result_array = result_array s @ [page_sum img hn p x 8]\<rparr>"
proof -
  define P where "P = (\<lambda>k t.
      if k < 8 then byte t = page_sum img hn p x k \<and> byte_offset t = 2 ^ k
                    \<and> result_array t = result_array s
      else t = \<lparr>byte = 0, byte_offset = 1,
                 result_array = result_array s @ [page_sum img hn p x 8]\<rparr>)"
  have "\<exists>t. for_each (pack_bit img hn p x) [0..<8] s = Inr t \<and> P (length [0..<8]) t"
  proof (rule for_each_invariant)
    show "P 0 s"
      using assms(3,4) by (simp add: P_def page_sum_def)
  next
    fix k t
    assume "k < length [0..<8]" and inv: "P k t"
    then have k: "k < 8" by simp
    with inv have t: "byte t = page_sum img hn p x k" "byte_offset t = 2 ^ k"
      "result_array t = result_array s"
      by (simp_all add: P_def)
    have nth: "[0..<8] ! k = k"
      using k by simp
    have k7: "\<not> k < 7 \<Longrightarrow> \<not> Suc k < 8" by arith
    show "\<exists>t'. pack_bit img hn p x ([0..<8] ! k) t = Inr t' \<and> P (Suc k) t'"
      unfolding nth pack_bit_step [OF assms(1,2) k t(1,2)]
      using t(3) k7 by (auto simp: P_def)
  qed
  then show ?thesis
    by (auto simp: P_def)
qed

lemma pack_column_eq:
  assumes "hn \<le> length img" and "\<forall>r<hn. x < length (img ! r)"
    and "byte s = 0" and "byte_offset s = 1"
  shows "pack_column img hn p x s =
      Inr \<lparr>byte = 0, byte_offset = 1, result_array = result_array s @ [page_sum img hn p x 8]\<rparr>"
  by (simp add: pack_column_def pack_bits_column [OF assms])

lemma pack_page_eq:
  assumes "hn \<le> length img" and "\<forall>r<hn. wn \<le> length (img ! r)"
    and "byte s = 0" and "byte_offset s = 1"
  shows "for_each (pack_column img hn p) [0..<wn] s =
      Inr \<lparr>byte = 0, byte_offset = 1,
           result_array = result_array s @ map (\<lambda>x. page_sum img hn p x 8) [0..<wn]\<rparr>"
proof -
  define P where "P = (\<lambda>k t. t = \<lparr>byte = 0, byte_offset = 1,
      result_array = result_array s @ map (\<lambda>x. page_sum img hn p x 8) [0..<k]\<rparr>)"
  have "\<exists>t. for_each (pack_column img hn p) [0..<wn] s = Inr t \<and> P (length [0..<wn]) t"
  proof (rule for_each_invariant)
    show "P 0 s"
      using assms(3,4) by (simp add: P_def)
  next
    fix k t
    assume k: "k < length [0..<wn]" and inv: "P k t"
    have cols: "\<forall>r<hn. k < length (img ! r)"
      using assms(2) k by fastforce
    have t: "byte t = 0" "byte_offset t = 1"
      using inv by (simp_all add: P_def)
    have nth: "[0..<wn] ! k = k"
      using k by simp
    show "\<exists>t'. pack_column img hn p ([0..<wn] ! k) t = Inr t' \<and> P (Suc k) t'"
      unfolding nth pack_column_eq [OF assms(1) cols t]
      using inv by (simp add: P_def)
  qed
  then show ?thesis
    by (simp add: P_def)
qed

lemma page_bytes_Suc:
  "page_bytes img hn wn (Suc k) =
     page_bytes img hn wn k @ map (\<lambda>x. page_sum img hn k x 8) [0..<wn]"
  by (simp add: page_bytes_def)

lemma length_page_bytes: "length (page_bytes img hn wn k) = wn * k"
  by (induction k) (simp_all add: page_bytes_Suc, simp add: page_bytes_def)

lemma nth_page_bytes:
  "p < k \<Longrightarrow> x < wn \<Longrightarrow> page_bytes img hn wn k ! (p * wn + x) = page_sum img hn p x 8"
proof (induction k)
  case 0
  then show ?case by simp
next
  case (Suc k)
  show ?case
  proof (cases "p < k")
    case True
    then have "Suc p \<le> k" by simp
    then have "Suc p * wn \<le> k * wn" by (rule mult_le_mono1)
    with Suc.prems(2) have "p * wn + x < wn * k"
      by (simp add: ac_simps)
    with True Suc show ?thesis
      by (simp add: page_bytes_Suc nth_append length_page_bytes)
  next
    case False
    with Suc.prems have "p = k" by simp
    with Suc.prems(2) show ?thesis
      by (simp add: page_bytes_Suc nth_append length_page_bytes ac_simps)
  qed
qed

lemma pack_eq:
  assumes "hn \<le> length img" and "\<forall>r<hn. wn \<le> length (img ! r)"
    and "byte s = 0" and "byte_offset s = 1"
  shows "pack img hn hn2 wn s =
      Inr \<lparr>byte = 0, byte_offset = 1,
           result_array = result_array s @ page_bytes img hn wn hn2\<rparr>"
proof -
  define P where "P = (\<lambda>k t. t = \<lparr>byte = 0, byte_offset = 1,
      result_array = result_array s @ page_bytes img hn wn k\<rparr>)"
  have "\<exists>t. for_each (\<lambda>n. for_each (pack_column img hn n) [0..<wn]) [0..<hn2] s = Inr t
          \<and> P (length [0..<hn2]) t"
  proof (rule for_each_invariant)
    show "P 0 s"
      using assms(3,4) by (simp add: P_def page_bytes_def)
  next
    fix k t
    assume k: "k < length [0..<hn2]" and inv: "P k t"
    have t: "byte t = 0" "byte_offset t = 1"
      using inv by (simp_all add: P_def)
    have nth: "[0..<hn2] ! k = k"
      using k by simp
    show "\<exists>t'. for_each (pack_column img hn ([0..<hn2] ! k)) [0..<wn] t = Inr t' \<and> P (Suc k) t'"
      unfolding nth pack_page_eq [OF assms(1,2) t]
      using inv by (simp add: P_def page_bytes_Suc)
  qed
  then show ?thesis
    by (simp add: P_def pack_def)
qed


lemma gather_row:
  assumes px: "\<forall>xx < sx. pixel_luma im sel (x + xx) y' = Inr (g xx)"
    and len: "idx + sx \<le> length vpx"
  shows "\<exists>vpx'. for_each (\<lambda>xx (vpx, idx).
            and_then (pixel_luma im sel (x + xx) y') (\<lambda>v.
            and_then (set_item vpx idx v) (\<lambda>vpx. Inr (vpx, idx + 1))))
          [0..<sx] (vpx, idx) = Inr (vpx', idx + sx)
       \<and> length vpx' = length vpx
       \<and> take (idx + sx) vpx' = take idx vpx @ map g [0..<sx]"
proof -
  define P where "P = (\<lambda>k (t :: int list \<times> nat).
      snd t = idx + k \<and> length (fst t) = length vpx
      \<and> take (idx + k) (fst t) = take idx vpx @ map g [0..<k])"
  have "\<exists>t. for_each (\<lambda>xx (vpx, idx).
            and_then (pixel_luma im sel (x + xx) y') (\<lambda>v.
            and_then (set_item vpx idx v) (\<lambda>vpx. Inr (vpx, idx + 1))))
          [0..<sx] (vpx, idx) = Inr t \<and> P (length [0..<sx]) t"
  proof (rule for_each_invariant)
    show "P 0 (vpx, idx)"
      by (simp add: P_def)
  next
    fix k t
    assume k: "k < length [0..<sx]" and inv: "P k t"
    obtain v i where t: "t = (v, i)" by (cases t)
    from inv t have i: "i = idx + k" and lv: "length v = length vpx"
      and tk: "take (idx + k) v = take idx vpx @ map g [0..<k]"
      by (simp_all add: P_def)
    from k have k': "k < sx" by simp
    with len lv have inb: "idx + k < length v" by simp
    have nth: "[0..<sx] ! k = k"
      using k by simp
    have "take (Suc (idx + k)) (v[idx + k := g k]) = take idx vpx @ map g [0..<k] @ [g k]"
      using inb tk by (simp add: take_Suc_conv_app_nth)
    then show "\<exists>t'. (case t of (vpx, idx) \<Rightarrow>
            and_then (pixel_luma im sel (x + [0..<sx] ! k) y') (\<lambda>v.
            and_then (set_item vpx idx v) (\<lambda>vpx. Inr (vpx, idx + 1)))) = Inr t'
          \<and> P (Suc k) t'"
      unfolding nth using px k' inb lv by (simp add: t i set_item_def P_def)
  qed
  then show ?thesis
    by (auto simp: P_def)
qed

lemma length_block_values: "length (block_values f sx k x y) = k * sx"
  by (induction k) (simp_all add: block_values_def)

lemma sum_list_block_values:
  "sum_list (block_values f sx k x y) = (\<Sum>yy<k. \<Sum>xx < sx. f (x + xx) (y + yy))"
  by (induction k) (simp_all add: block_values_def interv_sum_list_conv_sum_set_nat atLeast0LessThan)

lemma gather_eq:
  assumes px: "\<forall>yy < sy. \<forall>xx < sx. pixel_luma im sel (x + xx) (y + yy) = Inr (f (x + xx) (y + yy))"
  shows "gather im sel sx sy y x = Inr (block_values f sx sy x y, sx * sy)"
proof -
  define P where "P = (\<lambda>k (t :: int list \<times> nat).
      snd t = k * sx \<and> length (fst t) = sx * sy
      \<and> take (k * sx) (fst t) = block_values f sx k x y)"
  have "\<exists>t. for_each (\<lambda>yy.
       for_each (\<lambda>xx (vpx, idx).
         and_then (pixel_luma im sel (x + xx) (y + yy)) (\<lambda>v.
         and_then (set_item vpx idx v) (\<lambda>vpx.
           Inr (vpx, idx + 1))))
         [0..<sx])
       [0..<sy]
       (replicate (sx * sy) 0, 0) = Inr t \<and> P (length [0..<sy]) t"
  proof (rule for_each_invariant)
    show "P 0 (replicate (sx * sy) 0, 0)"
      by (simp add: P_def block_values_def)
  next
    fix k t
    assume k: "k < length [0..<sy]" and inv: "P k t"
    obtain v i where t: "t = (v, i)" by (cases t)
    from inv t have i: "i = k * sx" and lv: "length v = sx * sy"
      and tk: "take (k * sx) v = block_values f sx k x y"
      by (simp_all add: P_def)
    from k have k': "k < sy" by simp
    then have "Suc k * sx \<le> sy * sx" by (intro mult_le_mono1) simp
    then have room: "k * sx + sx \<le> length v"
      using lv by (simp add: ac_simps)
    have nth: "[0..<sy] ! k = k"
      using k by simp
    have row: "\<forall>xx < sx. pixel_luma im sel (x + xx) (y + k) = Inr (f (x + xx) (y + k))"
      using px k' by simp
    from gather_row [OF row room]
    obtain v' where v': "for_each (\<lambda>xx (vpx, idx).
            and_then (pixel_luma im sel (x + xx) (y + k)) (\<lambda>v.
            and_then (set_item vpx idx v) (\<lambda>vpx. Inr (vpx, idx + 1))))
          [0..<sx] (v, k * sx) = Inr (v', k * sx + sx)"
      "length v' = length v"
      "take (k * sx + sx) v' = take (k * sx) v @ map (\<lambda>xx. f (x + xx) (y + k)) [0..<sx]"
      by blast
    show "\<exists>t'. for_each (\<lambda>xx (vpx, idx).
            and_then (pixel_luma im sel (x + xx) (y + [0..<sy] ! k)) (\<lambda>v.
            and_then (set_item vpx idx v) (\<lambda>vpx. Inr (vpx, idx + 1))))
          [0..<sx] t = Inr t' \<and> P (Suc k) t'"
      unfolding nth t i using v' lv tk
      by (simp add: P_def block_values_def add.commute)
  qed
  then obtain t where t: "for_each (\<lambda>yy.
       for_each (\<lambda>xx (vpx, idx).
         and_then (pixel_luma im sel (x + xx) (y + yy)) (\<lambda>v.
         and_then (set_item vpx idx v) (\<lambda>vpx.
           Inr (vpx, idx + 1))))
         [0..<sx])
       [0..<sy]
       (replicate (sx * sy) 0, 0) = Inr t" "P sy t"
    by auto
  from t(2) have "t = (block_values f sx sy x y, sx * sy)"
    by (cases t) (auto simp: P_def ac_simps)
  with t(1) show ?thesis
    by (simp add: gather_def)
qed

lemma block_eq:
  assumes px: "\<forall>yy < sy. \<forall>xx < sx. pixel_luma im sel (x + xx) (y + yy) = Inr (f (x + xx) (y + yy))"
    and pos: "0 < sx" "0 < sy"
    and row: "y div sy < length img" and col: "x div sx < length (img ! (y div sy))"
  shows "block im sel sx sy thr y x img =
      Inr (if thr < block_mean f sx sy x y
           then img[y div sy := (img ! (y div sy))[x div sx := 1]] else img)"
  using pos row col
  by (simp add: block_def gather_eq [OF px] floordiv_def sum_list_block_values block_mean_def
      get_item_def set_item_def)


lemma tile_bound:
  fixes k n r s :: nat
  assumes "k < n" and "r < s"
  shows "k * s + r < n * s"
proof -
  from assms(1) have "Suc k \<le> n" by simp
  then have "Suc k * s \<le> n * s" by (rule mult_le_mono1)
  with assms(2) show ?thesis by simp
qed

lemma tile_index:
  fixes k n s :: nat
  assumes "k < n" and "0 < s"
  shows "k < n * s"
proof -
  have "k * s + 0 < n * s" using assms by (intro tile_bound)
  moreover have "k \<le> k * s" using assms(2) by simp
  ultimately show ?thesis by arith
qed

lemma range_step_exact:
  assumes "0 < step"
  shows "range_step (n * step) step = Inr (map (\<lambda>k. k * step) [0..<n])"
proof -
  have "(n * step + step - 1) div step = (step - 1 + n * step) div step"
    using assms by (simp add: ac_simps)
  also have "\<dots> = n"
    using assms by (simp only: div_mult_self1) simp
  finally show ?thesis
    using assms by (simp add: range_step_def)
qed

lemma downscale_row:
  assumes pos: "0 < sx" "0 < sy"
    and dims: "width im = wn * sx" "height im = hn * sy"
    and px: "\<forall>x<width im. \<forall>y<height im. pixel_luma im sel x y = Inr (f x y)"
    and dy: "dy < hn"
    and inv: "grid_is (height im) (width im) img
               (\<lambda>i j. if i < dy \<and> j < wn then cell f sx sy thr i j else 0)"
  shows "\<exists>img'. for_each (block im sel sx sy thr (dy * sy)) (map (\<lambda>k. k * sx) [0..<wn]) img = Inr img'
      \<and> grid_is (height im) (width im) img'
               (\<lambda>i j. if i < Suc dy \<and> j < wn then cell f sx sy thr i j else 0)"
proof -
  define P where "P = (\<lambda>k img'. grid_is (height im) (width im) img'
      (\<lambda>i j. if (i < dy \<and> j < wn) \<or> (i = dy \<and> j < k) then cell f sx sy thr i j else 0))"
  have dyh: "dy < height im"
    using dy pos(2) dims(2) by (simp add: tile_index)
  have "\<exists>t. for_each (block im sel sx sy thr (dy * sy)) (map (\<lambda>k. k * sx) [0..<wn]) img = Inr t
      \<and> P (length (map (\<lambda>k. k * sx) [0..<wn])) t"
  proof (rule for_each_invariant)
    have "(\<lambda>i j. if (i < dy \<and> j < wn) \<or> (i = dy \<and> j < (0::nat)) then cell f sx sy thr i j else 0)
        = (\<lambda>i j. if i < dy \<and> j < wn then cell f sx sy thr i j else 0)"
      by (intro ext) simp
    with inv show "P 0 img"
      by (simp add: P_def)
  next
    fix k t
    assume "k < length (map (\<lambda>k. k * sx) [0..<wn])" and invk: "P k t"
    then have k: "k < wn" by simp
    then have nth: "map (\<lambda>k. k * sx) [0..<wn] ! k = k * sx" by simp
    have kw: "k < width im"
      using k pos(1) dims(1) by (simp add: tile_index)
    have blk: "\<forall>yy < sy. \<forall>xx < sx.
        pixel_luma im sel (k * sx + xx) (dy * sy + yy) = Inr (f (k * sx + xx) (dy * sy + yy))"
      using px dims k dy by (simp add: tile_bound)
    have lt: "length t = height im" "length (t ! dy) = width im"
      using invk dyh by (simp_all add: P_def grid_is_def)
    have row: "dy * sy div sy < length t" and col: "k * sx div sx < length (t ! (dy * sy div sy))"
      using pos lt dyh kw by simp_all
    have upd: "P (Suc k) (if thr < block_mean f sx sy (k * sx) (dy * sy)
           then t[dy := (t ! dy)[k := 1]] else t)"
      using invk dyh kw k unfolding P_def grid_is_def cell_def
      by (auto simp: nth_list_update less_Suc_eq)
    show "\<exists>t'. block im sel sx sy thr (dy * sy) (map (\<lambda>k. k * sx) [0..<wn] ! k) t = Inr t'
        \<and> P (Suc k) t'"
      unfolding nth block_eq [OF blk pos row col]
      using upd pos by (simp split: if_splits)
  qed
  then obtain t where t: "for_each (block im sel sx sy thr (dy * sy)) (map (\<lambda>k. k * sx) [0..<wn]) img = Inr t"
    "P wn t" by auto
  have "(\<lambda>i j. if (i < dy \<and> j < wn) \<or> (i = dy \<and> j < wn) then cell f sx sy thr i j else 0)
      = (\<lambda>i j. if i < Suc dy \<and> j < wn then cell f sx sy thr i j else 0)"
    by (intro ext) (auto simp: less_Suc_eq)
  with t show ?thesis
    by (auto simp: P_def)
qed

lemma downscale_eq:
  assumes pos: "0 < sx" "0 < sy"
    and dims: "width im = wn * sx" "height im = hn * sy"
    and px: "\<forall>x<width im. \<forall>y<height im. pixel_luma im sel x y = Inr (f x y)"
  shows "\<exists>img. downscale im sel sx sy thr = Inr img
      \<and> grid_is (height im) (width im) img
               (\<lambda>i j. if i < hn \<and> j < wn then cell f sx sy thr i j else 0)"
proof -
  define P where "P = (\<lambda>k img. grid_is (height im) (width im) img
      (\<lambda>i j. if i < k \<and> j < wn then cell f sx sy thr i j else 0))"
  have "\<exists>t. for_each (\<lambda>y img.
         and_then (range_step (width im) sx) (\<lambda>xs.
           for_each (block im sel sx sy thr y) xs img))
         (map (\<lambda>k. k * sy) [0..<hn])
         (replicate (height im) (replicate (width im) 0)) = Inr t
      \<and> P (length (map (\<lambda>k. k * sy) [0..<hn])) t"
  proof (rule for_each_invariant)
    show "P 0 (replicate (height im) (replicate (width im) 0))"
      by (simp add: P_def grid_is_def)
  next
    fix k t
    assume "k < length (map (\<lambda>k. k * sy) [0..<hn])" and invk: "P k t"
    then have k: "k < hn" by simp
    then have nth: "map (\<lambda>k. k * sy) [0..<hn] ! k = k * sy" by simp
    from downscale_row [OF pos dims px k invk [unfolded P_def]]
    show "\<exists>t'. and_then (range_step (width im) sx) (\<lambda>xs.
           for_each (block im sel sx sy thr (map (\<lambda>k. k * sy) [0..<hn] ! k)) xs t) = Inr t'
        \<and> P (Suc k) t'"
      unfolding nth dims(1) range_step_exact [OF pos(1)]
      by (simp add: P_def dims(1))
  qed
  then show ?thesis
    unfolding downscale_def dims(2) range_step_exact [OF pos(2)]
    by (simp add: P_def dims(2))
qed


section \<open>The claims\<close>

subsection \<open>Colour helpers\<close>

text \<open>
  Claim C8. For every integer \<open>v\<close>, \<open>scale_crop\<close> with the default scale 256 returns the
  ceiling of \<open>v / 256\<close> clamped to the range 0 to 255, a value of that range; it maps 0 to 0,
  65280 to 255, 65281 to 255 and -1 to 0.
\<close>

theorem scale_crop_contract:
  "scale_crop v 256 = Inr (clamp (ceil_div v 256) 0 255)
   \<and> 0 \<le> clamp (ceil_div v 256) 0 255 \<and> clamp (ceil_div v 256) 0 255 \<le> 255
   \<and> scale_crop 0 256 = Inr 0
   \<and> scale_crop 65280 256 = Inr 255
   \<and> scale_crop 65281 256 = Inr 255
   \<and> scale_crop (- 1) 256 = Inr 0"
proof -
  have "scale_crop v 256 = Inr (clamp (ceil_div v 256) 0 255)"
    by (rule scale_crop_eq) simp
  moreover have "0 \<le> clamp (ceil_div v 256) 0 255 \<and> clamp (ceil_div v 256) 0 255 \<le> 255"
    by (simp add: clamp_def)
  moreover have "scale_crop 0 256 = Inr 0" "scale_crop 65280 256 = Inr 255"
    "scale_crop 65281 256 = Inr 255" "scale_crop (- 1) 256 = Inr 0"
    by (simp_all add: scale_crop_def floordiv_def)
  ultimately show ?thesis by simp
qed

text \<open>
  Claim C2, as stated: an RGBA pixel composited over white gives, per channel \<open>c\<close>, the
  ceiling of \<open>((255 - a) * 255 + a * c) / 255\<close>, clamped. The pixel \<open>(254, 254, 254, 128)\<close>
  refutes the divisor: the code returns 254 where this formula gives 255.
\<close>

theorem rgba2rgb_divisor_255_counterexample:
  "rgba2rgb (Multi [254, 254, 254, 128]) bg_default = Inr (Multi [254, 254, 254])
   \<and> clamp (ceil_div ((255 - 128) * 255 + 128 * 254) 255) 0 255 = 255"
  by (simp add: rgba2rgb_eq clamp_def ceil_div_def)

text \<open>
  Claim C2, amended: \<open>rgba2rgb\<close> with the default white background gives, per channel
  \<open>c\<close>, the ceiling of \<open>((255 - a) * 255 + a * c) / 256\<close> clamped to the range 0 to 255;
  the divisor is the default scale 256 of \<open>scale_crop\<close>.
\<close>

theorem rgba2rgb_over_white:
  "rgba2rgb (Multi [r, g, b, a]) bg_default =
     Inr (Multi [clamp (ceil_div ((255 - a) * 255 + a * r) 256) 0 255,
                 clamp (ceil_div ((255 - a) * 255 + a * g) 256) 0 255,
                 clamp (ceil_div ((255 - a) * 255 + a * b) 256) 0 255])
   \<and> bg_default = Multi [255, 255, 255]"
  by (simp add: rgba2rgb_eq) (simp add: bg_default_def)

text \<open>
  Claim C6. Whatever the colour model, once a pixel is normalised to the triple
  \<open>(r, g, b)\<close> the value handed to the downscaler is the luma of the inverted triple:
  the triple is inverted first, channel by channel (\<open>255 - c\<close>), and the luma of the result is
  the ceiling of \<open>(76 * (255 - r) + 150 * (255 - g) + 29 * (255 - b)) / 256\<close> clamped to the
  range 0 to 255.
\<close>

theorem inverted_luma:
  assumes "normalize im sel x y = Inr (Multi [r, g, b])"
  shows "pixel_luma im sel x y =
      Inr (clamp (ceil_div (76 * (255 - r) + 150 * (255 - g) + 29 * (255 - b)) 256) 0 255)
    \<and> color_invert (Multi [r, g, b]) = Inr (Multi [255 - r, 255 - g, 255 - b])
    \<and> get_y (Multi [255 - r, 255 - g, 255 - b]) =
      Inr (clamp (ceil_div (76 * (255 - r) + 150 * (255 - g) + 29 * (255 - b)) 256) 0 255)"
  using assms
  by (simp add: pixel_luma_def invert_then_luma)
    (simp add: color_invert_def get_y_def subscript_def scale_crop_eq)

lemma px_solid: "px (solid m ww hh c) x y = (if x < ww \<and> y < hh then Inr c else Inl IndexError)"
  by (simp add: px_def solid_def)

theorem inverted_luma_witness:
  "normalize (solid ''RGB'' 2 2 (Multi [10, 20, 30]))
      \<lparr>has_alpha = False, rgb_mode = True, i_mode = 65536\<rparr> 0 1 = Inr (Multi [10, 20, 30])
   \<and> pixel_luma (solid ''RGB'' 2 2 (Multi [10, 20, 30]))
      \<lparr>has_alpha = False, rgb_mode = True, i_mode = 65536\<rparr> 0 1 = Inr 236"
proof -
  have n: "normalize (solid ''RGB'' 2 2 (Multi [10, 20, 30]))
      \<lparr>has_alpha = False, rgb_mode = True, i_mode = 65536\<rparr> 0 1 = Inr (Multi [10, 20, 30])"
    by (simp add: normalize_def px_solid)
  from inverted_luma [OF n] n show ?thesis
    by (simp add: clamp_def ceil_div_def)
qed

subsection \<open>Block downscaler\<close>

text \<open>
  Claim C5. When the scale factors tile the image exactly and every source pixel is
  normalised to a triple \<open>(r x y, g x y, b x y)\<close>, the downscaler returns a grid whose bit at
  destination pixel \<open>(dx, dy)\<close> is 1 exactly if \<open>m > thr\<close>, where \<open>m\<close> is the floor of the sum,
  over the \<open>sx * sy\<close> pixels of the block \<open>[dx * sx, dx * sx + sx)\<close> by
  \<open>[dy * sy, dy * sy + sy)\<close>, of their inverted lumas
  \<open>clamp(ceil_div(76 * (255 - r) + 150 * (255 - g) + 29 * (255 - b), 256), 0, 255)\<close>, divided
  by \<open>sx * sy\<close>. A block whose mean equals the threshold gives bit 0.
\<close>

theorem downscale_threshold:
  assumes "0 < sx" and "0 < sy"
    and "width im = wn * sx" and "height im = hn * sy"
    and "\<forall>x<width im. \<forall>y<height im.
           normalize im sel x y = Inr (Multi [r x y, g x y, b x y])"
    and "dx < wn" and "dy < hn"
  shows "\<exists>img. downscale im sel sx sy thr = Inr img
      \<and> img ! dy ! dx =
          (if thr < (\<Sum>yy < sy. \<Sum>xx < sx.
                 clamp (ceil_div (76 * (255 - r (dx * sx + xx) (dy * sy + yy))
                                + 150 * (255 - g (dx * sx + xx) (dy * sy + yy))
                                + 29 * (255 - b (dx * sx + xx) (dy * sy + yy))) 256) 0 255)
               div int (sx * sy)
           then 1 else 0)
      \<and> ((\<Sum>yy < sy. \<Sum>xx < sx.
                 clamp (ceil_div (76 * (255 - r (dx * sx + xx) (dy * sy + yy))
                                + 150 * (255 - g (dx * sx + xx) (dy * sy + yy))
                                + 29 * (255 - b (dx * sx + xx) (dy * sy + yy))) 256) 0 255)
               div int (sx * sy) = thr
           \<longrightarrow> img ! dy ! dx = 0)"
proof -
  define f where "f = (\<lambda>x y. clamp (ceil_div (76 * (255 - r x y) + 150 * (255 - g x y)
      + 29 * (255 - b x y)) 256) 0 255)"
  have luma: "\<forall>x<width im. \<forall>y<height im. pixel_luma im sel x y = Inr (f x y)"
    using assms(5) by (simp add: pixel_luma_def invert_then_luma f_def)
  from downscale_eq [OF assms(1-4) luma]
  obtain img where img: "downscale im sel sx sy thr = Inr img"
    "grid_is (height im) (width im) img (\<lambda>i j. if i < hn \<and> j < wn then cell f sx sy thr i j else 0)"
    by blast
  have "dy < height im" "dx < width im"
    using assms by (simp_all add: tile_index)
  with img(2) assms(6,7) have "img ! dy ! dx = cell f sx sy thr dy dx"
    by (simp add: grid_is_def)
  with img(1) show ?thesis
    by (auto simp: cell_def block_mean_def f_def)
qed

theorem downscale_threshold_witness:
  "(\<exists>img. downscale two_tone \<lparr>has_alpha = False, rgb_mode = True, i_mode = 65536\<rparr> 2 2 127 = Inr img
      \<and> img ! 0 ! 0 = 0)
   \<and> (\<exists>img. downscale two_tone \<lparr>has_alpha = False, rgb_mode = True, i_mode = 65536\<rparr> 2 2 126 = Inr img
      \<and> img ! 0 ! 0 = 1)"
proof -
  define c where "c = (\<lambda>(x::nat) (y::nat). if x = 0 then 0 else (255::int))"
  have dims: "width two_tone = 1 * 2" "height two_tone = 1 * 2"
    by (simp_all add: two_tone_def)
  have tri: "\<forall>x<width two_tone. \<forall>y<height two_tone.
      normalize two_tone \<lparr>has_alpha = False, rgb_mode = True, i_mode = 65536\<rparr> x y =
        Inr (Multi [c x y, c x y, c x y])"
    by (simp add: normalize_def px_def two_tone_def c_def)
  have mean: "(\<Sum>yy < 2. \<Sum>xx < 2.
                 clamp (ceil_div (76 * (255 - c (0 * 2 + xx) (0 * 2 + yy))
                                + 150 * (255 - c (0 * 2 + xx) (0 * 2 + yy))
                                + 29 * (255 - c (0 * 2 + xx) (0 * 2 + yy))) 256) 0 255)
               div int (2 * 2) = 127"
    by (simp add: c_def clamp_def ceil_div_def numeral_2_eq_2 lessThan_Suc)
  have "\<exists>img. downscale two_tone \<lparr>has_alpha = False, rgb_mode = True, i_mode = 65536\<rparr> 2 2 127 = Inr img
      \<and> img ! 0 ! 0 = 0"
    using downscale_threshold [OF _ _ dims tri, of 0 0 127] unfolding mean by simp
  moreover have "\<exists>img. downscale two_tone \<lparr>has_alpha = False, rgb_mode = True, i_mode = 65536\<rparr> 2 2 126 = Inr img
      \<and> img ! 0 ! 0 = 1"
    using downscale_threshold [OF _ _ dims tri, of 0 0 126] unfolding mean by simp
  ultimately show ?thesis by simp
qed

text \<open>The same image run through the loops: only the block of the black column is lit.\<close>

lemma two_tone_run:
  "downscale two_tone \<lparr>has_alpha = False, rgb_mode = True, i_mode = 65536\<rparr> 2 2 126 = Inr [[1, 0], [0, 0]]"
  by code_simp

subsection \<open>Bit packer\<close>

text \<open>The example of the docstring of \<open>main\<close>: a diagonal pattern on 8 by 8 pixels.\<close>

lemma pack_docstring_example:
  "pack [[1, 0, 0, 0, 0, 0, 0, 0], [0, 0, 1, 0, 0, 0, 0, 0], [0, 0, 0, 0, 1, 0, 0, 0],
         [0, 0, 0, 0, 0, 0, 1, 0], [0, 1, 0, 0, 0, 0, 0, 0], [0, 0, 0, 1, 0, 0, 0, 0],
         [0, 0, 0, 0, 0, 1, 0, 0], [0, 0, 0, 0, 0, 0, 0, 1]] 8 1 8
        \<lparr>byte = 0, byte_offset = 1, result_array = []\<rparr> =
     Inr \<lparr>byte = 0, byte_offset = 1,
          result_array = [0x01, 0x10, 0x02, 0x20, 0x04, 0x40, 0x08, 0x80]\<rparr>"
  by code_simp

lemma page_sum_binary:
  assumes "\<forall>r<hn. \<forall>c<wn. img ! r ! c = 0 \<or> img ! r ! c = 1" and "x < wn"
  shows "page_sum img hn p x k =
      (\<Sum>y<k. if p * 8 + y < hn \<and> img ! (p * 8 + y) ! x = 1 then 2 ^ y else 0)"
  unfolding page_sum_def lit_weight_def
  using assms by (intro sum.cong) auto

text \<open>
  Claim C1. On a binary grid that has at least \<open>hn\<close> rows of at least \<open>wn\<close> columns, the
  packer succeeds, and for every page \<open>p\<close> below \<open>ceil(hn / 8)\<close> and column \<open>x\<close> below
  \<open>wn\<close> the byte at index \<open>p * wn + x\<close> is the sum over \<open>y\<close> in 0 to 7 of \<open>2 ^ y\<close> for those
  \<open>y\<close> with \<open>p * 8 + y < hn\<close> whose grid bit at row \<open>p * 8 + y\<close>, column \<open>x\<close> is 1. Bit 0 is the
  top row of the page, and rows from \<open>hn\<close> on add nothing, so the unused high bits of the
  last page are zero.
\<close>

theorem pack_layout:
  assumes "hn \<le> length img" and "\<forall>r<hn. wn \<le> length (img ! r)"
    and "\<forall>r<hn. \<forall>c<wn. img ! r ! c = 0 \<or> img ! r ! c = 1"
    and "p < (hn + 7) div 8" and "x < wn"
  shows "\<exists>st. pack img hn ((hn + 7) div 8) wn \<lparr>byte = 0, byte_offset = 1, result_array = []\<rparr> = Inr st
      \<and> result_array st ! (p * wn + x) =
          (\<Sum>y<8. if p * 8 + y < hn \<and> img ! (p * 8 + y) ! x = 1 then 2 ^ y else 0)"
proof -
  have "pack img hn ((hn + 7) div 8) wn \<lparr>byte = 0, byte_offset = 1, result_array = []\<rparr> =
      Inr \<lparr>byte = 0, byte_offset = 1, result_array = [] @ page_bytes img hn wn ((hn + 7) div 8)\<rparr>"
    using assms(1,2) by (subst pack_eq) simp_all
  moreover have "page_bytes img hn wn ((hn + 7) div 8) ! (p * wn + x) = page_sum img hn p x 8"
    using assms(4,5) by (rule nth_page_bytes)
  ultimately show ?thesis
    using page_sum_binary [OF assms(3,5)] by simp
qed

theorem pack_layout_witness:
  "\<exists>st. pack [[1, 0], [1, 1], [0, 1]] 3 ((3 + 7) div 8) 2 \<lparr>byte = 0, byte_offset = 1, result_array = []\<rparr> = Inr st
      \<and> result_array st ! (0 * 2 + 1) = 6"
proof -
  have h1: "3 \<le> length [[1, 0], [1, 1], [0, 1::int]]"
    by simp
  have h2: "\<forall>r<3. 2 \<le> length ([[1, 0], [1, 1], [0, 1::int]] ! r)"
    by (simp add: less_Suc_eq eval_nat_numeral)
  have h3: "\<forall>r<3. \<forall>c<2. [[1, 0], [1, 1], [0, 1::int]] ! r ! c = 0 \<or> [[1, 0], [1, 1], [0, 1::int]] ! r ! c = 1"
    by (auto simp add: less_Suc_eq eval_nat_numeral)
  have h4: "(0::nat) < (3 + 7) div 8"
    by simp
  have h5: "(1::nat) < 2"
    by simp
  have s: "(\<Sum>y<8. if 0 * 8 + y < 3 \<and> [[1, 0], [1, 1], [0, 1::int]] ! (0 * 8 + y) ! 1 = 1 then 2 ^ y else 0) = (6::int)"
    by (simp add: eval_nat_numeral lessThan_Suc)
  from pack_layout [OF h1 h2 h3 h4 h5] show ?thesis
    unfolding s .
qed

subsection \<open>End to end\<close>

text \<open>
  Claim C3. A 16 by 16 solid black RGB image converted with the defaults (16, 16, 127)
  gives exactly 32 bytes, all \<open>0xFF\<close>; a solid white one gives 32 bytes, all \<open>0x00\<close>.
\<close>

theorem solid_black_and_white:
  "main (solid ''RGB'' 16 16 (Multi [0, 0, 0])) 16 16 127 =
     Inr \<lparr>result = replicate 32 0xFF, w = 16, h = 16\<rparr>
   \<and> main (solid ''RGB'' 16 16 (Multi [255, 255, 255])) 16 16 127 =
     Inr \<lparr>result = replicate 32 0x00, w = 16, h = 16\<rparr>"
proof -
  have "main (solid ''RGB'' 16 16 (Multi [0, 0, 0])) 16 16 127 =
     Inr \<lparr>result = replicate 32 0xFF, w = 16, h = 16\<rparr>"
    by code_simp
  moreover have "main (solid ''RGB'' 16 16 (Multi [255, 255, 255])) 16 16 127 =
     Inr \<lparr>result = replicate 32 0x00, w = 16, h = 16\<rparr>"
    by code_simp
  ultimately show ?thesis by simp
qed

theorem solid_black_and_white_witness:
  "\<not> (int (height (solid ''RGB'' 16 16 (Multi [0, 0, 0]))) div 1 \<noteq> 16
        \<or> int (width (solid ''RGB'' 16 16 (Multi [0, 0, 0]))) div 1 \<noteq> 16)
   \<and> (\<exists>out. main (solid ''RGB'' 16 16 (Multi [0, 0, 0])) 16 16 127 = Inr out
          \<and> length (result out) = 32 \<and> set (result out) = {255})
   \<and> (\<exists>out. main (solid ''RGB'' 16 16 (Multi [255, 255, 255])) 16 16 127 = Inr out
          \<and> length (result out) = 32 \<and> set (result out) = {0})"
  using solid_black_and_white by (simp add: solid_def)

subsection \<open>The conversion as a whole\<close>

text \<open>\<open>main\<close> with its arithmetic unfolded: a zero destination size raises at the first division.\<close>

lemma main_zero:
  assumes "dest_w = 0 \<or> dest_h = 0"
  shows "main im dest_w dest_h thr = Inl ZeroDivisionError"
  using assms by (auto simp: main_def floordiv_def)

lemma main_eq:
  assumes "dest_w \<noteq> 0" and "dest_h \<noteq> 0"
  shows "main im dest_w dest_h thr =
    (let sx = max 1 (int (width im) div dest_w);
         sy = max 1 (int (height im) div dest_h)
     in if int (height im) div sy \<noteq> dest_h \<or> int (width im) div sx \<noteq> dest_w
        then Inl ExitScaleFactor
        else
          and_then (select_mode im) (\<lambda>sel.
          and_then (downscale im sel (nat sx) (nat sy) thr) (\<lambda>img.
          and_then (pack img (nat dest_h) (nat ((dest_h + 7) div 8)) (nat dest_w)
                      \<lparr>byte = 0, byte_offset = 1, result_array = []\<rparr>) (\<lambda>st.
            Inr \<lparr>result = result_array (if byte_offset st > 1 then flush st else st),
                 w = dest_w, h = dest_h\<rparr>))))"
proof -
  have sx: "(if int (width im) div dest_w < 1 then 1 else int (width im) div dest_w)
      = max 1 (int (width im) div dest_w)"
    by (simp add: max_def)
  have sy: "(if int (height im) div dest_h < 1 then 1 else int (height im) div dest_h)
      = max 1 (int (height im) div dest_h)"
    by (simp add: max_def)
  have nz: "max 1 (int (width im) div dest_w) \<noteq> 0" "max 1 (int (height im) div dest_h) \<noteq> 0"
    by (simp_all add: max_def)
  have seven: "hn + 8 - 1 = hn + 7" for hn :: int
    by simp
  show ?thesis
    using assms nz unfolding main_def floordiv_def Let_def sx sy seven
    by simp
qed

text \<open>The grid keeps the size of the source image through the downscaler.\<close>

lemma block_dims:
  assumes "block im sel sx sy thr y x img = Inr v"
  shows "map length v = map length img"
proof -
  have upd: "map length (img[i := (img ! i)[j := 1]]) = map length img" for i j
    by (cases "i < length img") (simp_all add: map_update list_update_same_conv list_update_beyond)
  from assms show ?thesis
    unfolding block_def
    by (auto simp: and_then_def get_item_def set_item_def upd
        split: sum.splits prod.splits if_splits)
qed

lemma downscale_dims:
  assumes "downscale im sel sx sy thr = Inr img"
  shows "map length img = replicate (height im) (width im)"
proof -
  from assms obtain ys where ys: "range_step (height im) sy = Inr ys"
    and loop: "for_each (\<lambda>y img.
         and_then (range_step (width im) sx) (\<lambda>xs.
           for_each (block im sel sx sy thr y) xs img))
         ys (replicate (height im) (replicate (width im) 0)) = Inr img"
    by (auto simp: downscale_def and_then_def split: sum.splits)
  define P where "P = (\<lambda>g :: int list list. map length g = replicate (height im) (width im))"
  have "P img"
  proof (rule for_each_preserves [OF loop])
    show "P (replicate (height im) (replicate (width im) 0))"
      by (simp add: P_def)
  next
    fix y u v
    assume "P u" and row: "and_then (range_step (width im) sx) (\<lambda>xs.
           for_each (block im sel sx sy thr y) xs u) = Inr v"
    from row obtain xs where inner: "for_each (block im sel sx sy thr y) xs u = Inr v"
      by (auto simp: and_then_def split: sum.splits)
    show "P v"
    proof (rule for_each_preserves [OF inner])
      show "P u" by fact
    next
      fix x u' v'
      assume "P u'" "block im sel sx sy thr y x u' = Inr v'"
      then show "P v'"
        by (simp add: P_def block_dims)
    qed
  qed
  then show ?thesis
    by (simp add: P_def)
qed

text \<open>
  Claim C7. Whenever the conversion succeeds, and so has passed the dimension check, the
  packed byte stream has exactly \<open>dest_w * ceil(dest_h / 8)\<close> bytes.
\<close>

theorem byte_stream_length:
  assumes "main im dest_w dest_h thr = Inr out"
  shows "int (length (result out)) = dest_w * ceil_div dest_h 8"
proof -
  from assms have nz: "dest_w \<noteq> 0" "dest_h \<noteq> 0"
    using main_zero [of dest_w dest_h im thr] by auto
  define sx where "sx = max 1 (int (width im) div dest_w)"
  define sy where "sy = max 1 (int (height im) div dest_h)"
  have pos: "0 < sx" "0 < sy"
    by (simp_all add: sx_def sy_def)
  from assms obtain sel img st
    where hn: "int (height im) div sy = dest_h" and wn: "int (width im) div sx = dest_w"
      and down: "downscale im sel (nat sx) (nat sy) thr = Inr img"
      and pk: "pack img (nat dest_h) (nat ((dest_h + 7) div 8)) (nat dest_w)
                 \<lparr>byte = 0, byte_offset = 1, result_array = []\<rparr> = Inr st"
      and out: "out = \<lparr>result = result_array (if byte_offset st > 1 then flush st else st),
                 w = dest_w, h = dest_h\<rparr>"
    unfolding main_eq [OF nz] Let_def sx_def [symmetric] sy_def [symmetric]
    by (auto simp: and_then_def split: if_splits sum.splits)
  have dw: "0 \<le> dest_w" and dh: "0 \<le> dest_h"
    using hn wn pos by (auto simp: pos_imp_zdiv_nonneg_iff)
  have "dest_h \<le> int (height im)"
    using hn pos(2) zdiv_mono2 [of "int (height im)" 1 sy] by simp
  have len: "length img = height im"
    using downscale_dims [OF down, THEN arg_cong [where f = length]] by simp
  from \<open>dest_h \<le> int (height im)\<close> have rows: "nat dest_h \<le> length img"
    by (simp add: len)
  have "dest_w \<le> int (width im)"
    using wn pos(1) zdiv_mono2 [of "int (width im)" 1 sx] by simp
  then have cols: "\<forall>r<nat dest_h. nat dest_w \<le> length (img ! r)"
  proof (intro allI impI)
    fix r
    assume r: "r < nat dest_h"
    with rows have rl: "r < length img" by simp
    then have "length (img ! r) = map length img ! r" by simp
    also have "\<dots> = width im"
      using rl len by (simp add: downscale_dims [OF down])
    finally show "nat dest_w \<le> length (img ! r)"
      using \<open>dest_w \<le> int (width im)\<close> by simp
  qed
  have "st = \<lparr>byte = 0, byte_offset = 1,
      result_array = [] @ page_bytes img (nat dest_h) (nat dest_w) (nat ((dest_h + 7) div 8))\<rparr>"
    using pk by (subst (asm) pack_eq [OF rows cols]) simp_all
  then have "length (result out) = nat dest_w * nat ((dest_h + 7) div 8)"
    by (simp add: out length_page_bytes)
  moreover have "ceil_div dest_h 8 = (dest_h + 7) div 8"
    using ceil_div_round_up [of 8 dest_h] by simp
  moreover have "0 \<le> (dest_h + 7) div 8"
    using dh by (simp add: pos_imp_zdiv_nonneg_iff)
  ultimately show ?thesis
    using dw by simp
qed


theorem byte_stream_length_witness:
  "main (solid ''RGB'' 4 18 (Multi [0, 0, 0])) 2 9 127 =
     Inr \<lparr>result = [255, 255, 1, 1], w = 2, h = 9\<rparr>
   \<and> int (length [255, 255, 1, 1 :: int]) = 2 * ceil_div 9 8"
proof -
  have run: "main (solid ''RGB'' 4 18 (Multi [0, 0, 0])) 2 9 127 =
      Inr \<lparr>result = [255, 255, 1, 1], w = 2, h = 9\<rparr>"
    by code_simp
  from byte_stream_length [OF run] run show ?thesis
    by simp
qed

subsection \<open>Failures before any output\<close>

text \<open>
  Claim C10. If the source is narrower than \<open>dest_w\<close> or lower than \<open>dest_h\<close>, the
  conversion fails before any pixel is read: a zero destination size raises
  \<open>ZeroDivisionError\<close>, and otherwise the scale factor of the short axis is clamped to 1, the
  result dimension is the source dimension and the dimension check exits.
\<close>

theorem upscaling_fails:
  assumes "int (width im) < dest_w \<or> int (height im) < dest_h"
  shows "main im dest_w dest_h thr =
      (if dest_w = 0 \<or> dest_h = 0 then Inl ZeroDivisionError else Inl ExitScaleFactor)"
proof (cases "dest_w = 0 \<or> dest_h = 0")
  case True
  then show ?thesis by (simp add: main_zero)
next
  case False
  then have nz: "dest_w \<noteq> 0" "dest_h \<noteq> 0" by simp_all
  from assms show ?thesis
  proof
    assume lt: "int (width im) < dest_w"
    then have "int (width im) div dest_w = 0" by simp
    then have "max 1 (int (width im) div dest_w) = 1" by simp
    with lt show ?thesis
      using nz by (simp add: main_eq Let_def)
  next
    assume lt: "int (height im) < dest_h"
    then have "int (height im) div dest_h = 0" by simp
    then have "max 1 (int (height im) div dest_h) = 1" by simp
    with lt show ?thesis
      using nz by (simp add: main_eq Let_def)
  qed
qed

theorem upscaling_fails_witness:
  "int (width (solid ''RGB'' 8 16 (Multi [0, 0, 0]))) < 16
   \<and> main (solid ''RGB'' 8 16 (Multi [0, 0, 0])) 16 16 127 = Inl ExitScaleFactor"
proof -
  have lt: "int (width (solid ''RGB'' 8 16 (Multi [0, 0, 0]))) < 16"
    by (simp add: solid_def)
  then have "int (width (solid ''RGB'' 8 16 (Multi [0, 0, 0]))) < 16
      \<or> int (height (solid ''RGB'' 8 16 (Multi [0, 0, 0]))) < 16"
    by simp
  from upscaling_fails [OF this, of 127] lt show ?thesis
    by simp
qed

text \<open>A pixel outside the image stops the block, the row and the whole downscaler.\<close>

lemma pixel_luma_outside:
  assumes "\<not> (x < width im \<and> y < height im)"
  shows "pixel_luma im sel x y = Inl IndexError"
proof -
  have "px im x y = Inl IndexError"
    using assms by (auto simp: px_def)
  then show ?thesis
    by (simp add: pixel_luma_def normalize_def)
qed

lemma gather_fails:
  assumes "xx < sx" and "yy < sy" and "\<not> (x + xx < width im \<and> y + yy < height im)"
  shows "\<exists>e. gather im sel sx sy y x = Inl e"
  unfolding gather_def
proof (rule for_each_fails [where x = yy])
  show "yy \<in> set [0..<sy]"
    using assms(2) by simp
next
  fix s :: "int list \<times> nat"
  show "\<exists>e. for_each (\<lambda>xx (vpx, idx).
         and_then (pixel_luma im sel (x + xx) (y + yy)) (\<lambda>v.
         and_then (set_item vpx idx v) (\<lambda>vpx.
           Inr (vpx, idx + 1))))
         [0..<sx] s = Inl e"
  proof (rule for_each_fails [where x = xx])
    show "xx \<in> set [0..<sx]"
      using assms(1) by simp
  next
    fix t :: "int list \<times> nat"
    show "\<exists>e. (case t of (vpx, idx) \<Rightarrow>
         and_then (pixel_luma im sel (x + xx) (y + yy)) (\<lambda>v.
         and_then (set_item vpx idx v) (\<lambda>vpx.
           Inr (vpx, idx + 1)))) = Inl e"
      by (cases t) (simp add: pixel_luma_outside [OF assms(3)])
  qed
qed

lemma block_fails:
  assumes "xx < sx" and "yy < sy" and "\<not> (x + xx < width im \<and> y + yy < height im)"
  shows "\<exists>e. block im sel sx sy thr y x img = Inl e"
proof -
  from gather_fails [OF assms] obtain e where "gather im sel sx sy y x = Inl e" ..
  then show ?thesis
    by (simp add: block_def)
qed

lemma downscale_fails:
  assumes ys: "range_step (height im) sy = Inr ys" and xs: "range_step (width im) sx = Inr xs"
    and y: "y \<in> set ys" and x: "x \<in> set xs"
    and off: "xx < sx" "yy < sy" "\<not> (x + xx < width im \<and> y + yy < height im)"
  shows "\<exists>e. downscale im sel sx sy thr = Inl e"
  unfolding downscale_def ys and_then_Inr
proof (rule for_each_fails [OF y])
  fix img :: "int list list"
  show "\<exists>e. and_then (range_step (width im) sx) (\<lambda>xs.
           for_each (block im sel sx sy thr y) xs img) = Inl e"
    unfolding xs and_then_Inr
  proof (rule for_each_fails [OF x])
    fix g :: "int list list"
    show "\<exists>e. block im sel sx sy thr y x g = Inl e"
      by (rule block_fails [OF off])
  qed
qed

lemma range_step_first:
  assumes "0 < step" and "0 < stop"
  shows "\<exists>xs. range_step stop step = Inr xs \<and> 0 \<in> set xs"
proof -
  have "step div step \<le> (stop + step - 1) div step"
    using assms by (intro div_le_mono) simp
  then have "0 < (stop + step - 1) div step"
    using assms(1) by simp
  then have "0 * step \<in> (\<lambda>k. k * step) ` {0..<(stop + step - 1) div step}"
    by (intro imageI) simp
  then show ?thesis
    using assms(1) by (simp add: range_step_def)
qed

lemma range_step_last:
  assumes "0 < step" and "stop mod step \<noteq> 0"
  shows "\<exists>xs. range_step stop step = Inr xs \<and> stop div step * step \<in> set xs"
proof -
  have "0 < stop mod step"
    using assms(2) by simp
  then have "stop div step * step + step \<le> (stop div step * step + stop mod step) + step - 1"
    by arith
  then have "Suc (stop div step) * step \<le> stop + step - 1"
    by simp
  then have "Suc (stop div step) * step div step \<le> (stop + step - 1) div step"
    by (rule div_le_mono)
  then have "stop div step < (stop + step - 1) div step"
    using assms(1) by simp
  then have "stop div step * step \<in> (\<lambda>k. k * step) ` {0..<(stop + step - 1) div step}"
    by (intro imageI) simp
  then show ?thesis
    using assms(1) by (simp add: range_step_def)
qed


lemma downscale_fails_width:
  assumes "0 < sx" and "0 < sy" and "0 < height im" and "width im mod sx \<noteq> 0"
  shows "\<exists>e. downscale im sel sx sy thr = Inl e"
proof -
  from range_step_first [OF assms(2,3)]
  obtain ys where ys: "range_step (height im) sy = Inr ys" "0 \<in> set ys" by blast
  from range_step_last [OF assms(1,4)]
  obtain xs where xs: "range_step (width im) sx = Inr xs" "width im div sx * sx \<in> set xs" by blast
  have "width im mod sx < sx"
    using assms(1) by simp
  moreover have "\<not> (width im div sx * sx + width im mod sx < width im \<and> 0 + 0 < height im)"
    by simp
  ultimately show ?thesis
    using assms(2) by (intro downscale_fails [OF ys(1) xs(1) ys(2) xs(2)])
qed

lemma downscale_fails_height:
  assumes "0 < sx" and "0 < sy" and "0 < width im" and "height im mod sy \<noteq> 0"
  shows "\<exists>e. downscale im sel sx sy thr = Inl e"
proof -
  from range_step_last [OF assms(2,4)]
  obtain ys where ys: "range_step (height im) sy = Inr ys" "height im div sy * sy \<in> set ys" by blast
  from range_step_first [OF assms(1,3)]
  obtain xs where xs: "range_step (width im) sx = Inr xs" "0 \<in> set xs" by blast
  have "height im mod sy < sy"
    using assms(2) by simp
  moreover have "\<not> (0 + 0 < width im \<and> height im div sy * sy + height im mod sy < height im)"
    by simp
  ultimately show ?thesis
    using assms(1) by (intro downscale_fails [OF ys(1) xs(1) ys(2) xs(2)])
qed

lemma nat_mod_of_int:
  assumes "0 < s" and "int n mod s \<noteq> 0"
  shows "n mod nat s \<noteq> 0"
proof
  assume "n mod nat s = 0"
  then have "int (n mod nat s) = 0" by simp
  then have "int n mod int (nat s) = 0" by (simp add: zmod_int)
  with assms show False by simp
qed

text \<open>
  Claim C4. With \<open>scale_x = max(1, W div dest_w)\<close> and \<open>scale_y = max(1, H div dest_h)\<close>, if
  \<open>W mod scale_x\<close> or \<open>H mod scale_y\<close> is not zero, or \<open>W div scale_x\<close> differs from \<open>dest_w\<close>,
  or \<open>H div scale_y\<close> from \<open>dest_h\<close>, the conversion ends in an error and hands nothing to
  \<open>save_to_h\<close>. The dimension check catches a wrong quotient; a remainder that passes the
  check makes the last block read a pixel outside the image, which raises \<open>IndexError\<close>.
\<close>

theorem non_exact_tiling_fails:
  assumes "let sx = max 1 (int (width im) div dest_w);
               sy = max 1 (int (height im) div dest_h)
           in int (width im) mod sx \<noteq> 0 \<or> int (height im) mod sy \<noteq> 0
              \<or> int (width im) div sx \<noteq> dest_w \<or> int (height im) div sy \<noteq> dest_h"
  shows "\<exists>e. main im dest_w dest_h thr = Inl e"
proof (cases "dest_w = 0 \<or> dest_h = 0")
  case True
  then show ?thesis by (simp add: main_zero)
next
  case False
  then have nz: "dest_w \<noteq> 0" "dest_h \<noteq> 0" by simp_all
  define sx where "sx = max 1 (int (width im) div dest_w)"
  define sy where "sy = max 1 (int (height im) div dest_h)"
  have pos: "0 < sx" "0 < sy"
    by (simp_all add: sx_def sy_def)
  have hyp: "int (width im) mod sx \<noteq> 0 \<or> int (height im) mod sy \<noteq> 0
      \<or> int (width im) div sx \<noteq> dest_w \<or> int (height im) div sy \<noteq> dest_h"
    using assms by (simp add: Let_def sx_def sy_def)
  show ?thesis
  proof (cases "int (height im) div sy \<noteq> dest_h \<or> int (width im) div sx \<noteq> dest_w")
    case True
    then show ?thesis
      unfolding main_eq [OF nz] Let_def sx_def [symmetric] sy_def [symmetric] by auto
  next
    case False
    then have fit: "int (height im) div sy = dest_h" "int (width im) div sx = dest_w"
      by simp_all
    have himg: "0 < height im"
      using fit(1) nz(2) by (cases "height im = 0") simp_all
    have wimg: "0 < width im"
      using fit(2) nz(1) by (cases "width im = 0") simp_all
    from hyp False have "int (width im) mod sx \<noteq> 0 \<or> int (height im) mod sy \<noteq> 0"
      by auto
    then have down: "\<exists>e. downscale im sel (nat sx) (nat sy) thr = Inl e" for sel
    proof
      assume "int (width im) mod sx \<noteq> 0"
      then have "width im mod nat sx \<noteq> 0"
        using pos(1) by (intro nat_mod_of_int)
      then show ?thesis
        using pos himg by (intro downscale_fails_width) simp_all
    next
      assume "int (height im) mod sy \<noteq> 0"
      then have "height im mod nat sy \<noteq> 0"
        using pos(2) by (intro nat_mod_of_int)
      then show ?thesis
        using pos wimg by (intro downscale_fails_height) simp_all
    qed
    show ?thesis
    proof (cases "select_mode im")
      case (Inl e)
      then show ?thesis
        unfolding main_eq [OF nz] Let_def sx_def [symmetric] sy_def [symmetric]
        using False by simp
    next
      case (Inr sel)
      from down [of sel] obtain e where "downscale im sel (nat sx) (nat sy) thr = Inl e" ..
      with Inr show ?thesis
        unfolding main_eq [OF nz] Let_def sx_def [symmetric] sy_def [symmetric]
        using False by simp
    qed
  qed
qed

theorem non_exact_tiling_fails_witness:
  "int (width (solid ''RGB'' 25 16 (Multi [0, 0, 0])))
      mod max 1 (int (width (solid ''RGB'' 25 16 (Multi [0, 0, 0]))) div 12) \<noteq> 0
   \<and> int (width (solid ''RGB'' 25 16 (Multi [0, 0, 0])))
      div max 1 (int (width (solid ''RGB'' 25 16 (Multi [0, 0, 0]))) div 12) = 12
   \<and> (\<exists>e. main (solid ''RGB'' 25 16 (Multi [0, 0, 0])) 12 16 127 = Inl e)"
proof -
  have odd: "int (width (solid ''RGB'' 25 16 (Multi [0, 0, 0])))
      mod max 1 (int (width (solid ''RGB'' 25 16 (Multi [0, 0, 0]))) div 12) \<noteq> 0"
    by (simp add: solid_def)
  have fit: "int (width (solid ''RGB'' 25 16 (Multi [0, 0, 0])))
      div max 1 (int (width (solid ''RGB'' 25 16 (Multi [0, 0, 0]))) div 12) = 12"
    by (simp add: solid_def)
  from odd have "let sx = max 1 (int (width (solid ''RGB'' 25 16 (Multi [0, 0, 0]))) div 12);
               sy = max 1 (int (height (solid ''RGB'' 25 16 (Multi [0, 0, 0]))) div 16)
           in int (width (solid ''RGB'' 25 16 (Multi [0, 0, 0]))) mod sx \<noteq> 0
              \<or> int (height (solid ''RGB'' 25 16 (Multi [0, 0, 0]))) mod sy \<noteq> 0
              \<or> int (width (solid ''RGB'' 25 16 (Multi [0, 0, 0]))) div sx \<noteq> 12
              \<or> int (height (solid ''RGB'' 25 16 (Multi [0, 0, 0]))) div sy \<noteq> 16"
    by (simp add: Let_def)
  from non_exact_tiling_fails [OF this, of 127] odd fit show ?thesis
    by blast
qed

text \<open>Width 25 for \<open>dest_w = 12\<close> passes the dimension check and then raises.\<close>

lemma uneven_width_index_error:
  "main (solid ''RGB'' 25 16 (Multi [0, 0, 0])) 12 16 127 = Inl IndexError"
  by code_simp

subsection \<open>Grey images with a bit depth\<close>




text \<open>
  The depth must be at least 8 for the divisor \<open>2 ^ bits div 256\<close> to be positive. The mode
  is any string here; for a depth of 4, which no mode of the decoder has, the divisor would be
  zero.
\<close>

lemma gray_depth_4_zero_divisor:
  "select_mode (solid ''I;4'' 16 16 (Single 3)) =
      Inr \<lparr>has_alpha = False, rgb_mode = False, i_mode = 16\<rparr>
   \<and> normalize (solid ''I;4'' 16 16 (Single 3))
        \<lparr>has_alpha = False, rgb_mode = False, i_mode = 16\<rparr> 0 0 = Inl ZeroDivisionError"
proof -
  have "select_mode (solid ''I;4'' 16 16 (Single 3)) =
      Inr \<lparr>has_alpha = False, rgb_mode = False, i_mode = 16\<rparr>"
    by code_simp
  moreover have "normalize (solid ''I;4'' 16 16 (Single 3))
        \<lparr>has_alpha = False, rgb_mode = False, i_mode = 16\<rparr> 0 0 = Inl ZeroDivisionError"
    by code_simp
  ultimately show ?thesis by simp
qed

text \<open>
  \<open>int\<close> drops the blanks \<open>0xA0\<close> and \<open>0x85\<close> around the digits, as Python does, and
  rejects the separator \<open>0x1C\<close>.
\<close>

lemma py_int_blank: "py_int [CHR 0xA0, CHR ''1'', CHR ''6'', CHR 0x85] = Inr 16"
  by code_simp

lemma py_int_1c: "py_int [CHR 0x1C, CHR ''1'', CHR ''6''] = Inl ValueError"
  by code_simp



end
